theory Spec2Isabelle
  imports Main "HOL-Library.Char_ord" "HOL-Library.List_Lexorder"
begin

section \<open>Plat map crawler: reference extraction, traversal, probing, orchestration\<close>

text \<open>
  A shallow embedding of \<^verbatim>\<open>plat_map_crawler.py\<close>. Python strings are modelled as
  \<^typ>\<open>string\<close>, one \<^typ>\<open>char\<close> per code point, so the texts covered are those whose code
  points lie below 256. Character classes are the ones Python's \<^verbatim>\<open>re\<close> and \<^verbatim>\<open>int\<close> use
  on that range. Log output is not modelled.
\<close>

subsection \<open>Characters and numerals\<close>

definition code :: "char \<Rightarrow> nat" where
  "code c = of_char c"

text \<open>\<^verbatim>\<open>\d\<close>: the decimal digits.\<close>

definition is_digit :: "char \<Rightarrow> bool" where
  "is_digit c = (48 \<le> code c \<and> code c \<le> 57)"

text \<open>\<^verbatim>\<open>\w\<close>: alphanumeric characters and the underscore.\<close>

definition is_word :: "char \<Rightarrow> bool" where
  "is_word c = (let n = code c in
     (48 \<le> n \<and> n \<le> 57) \<or> (65 \<le> n \<and> n \<le> 90) \<or> n = 95 \<or> (97 \<le> n \<and> n \<le> 122)
     \<or> n = 170 \<or> n = 178 \<or> n = 179 \<or> n = 181 \<or> n = 185 \<or> n = 186
     \<or> (188 \<le> n \<and> n \<le> 190) \<or> (192 \<le> n \<and> n \<le> 214) \<or> (216 \<le> n \<and> n \<le> 246)
     \<or> 248 \<le> n)"

text \<open>The characters \<^verbatim>\<open>int\<close> skips at both ends of its argument.\<close>

definition is_space :: "char \<Rightarrow> bool" where
  "is_space c = (let n = code c in (9 \<le> n \<and> n \<le> 13) \<or> n = 32 \<or> n = 133 \<or> n = 160)"

definition digit_value :: "char \<Rightarrow> int" where
  "digit_value c = int (code c) - 48"

definition digit_char :: "nat \<Rightarrow> char" where
  "digit_char d = char_of (48 + d)"

text \<open>The value of a digit string, underscores skipped, as \<^verbatim>\<open>int\<close> reads it.\<close>

fun digits_value :: "int \<Rightarrow> string \<Rightarrow> int" where
  "digits_value acc [] = acc"
| "digits_value acc (c # cs) =
     (if is_digit c then digits_value (10 * acc + digit_value c) cs else digits_value acc cs)"

text \<open>Digit groups separated by single underscores, the literal syntax \<^verbatim>\<open>int\<close> accepts.\<close>

fun digits_ok :: "string \<Rightarrow> bool" where
  "digits_ok [] = False"
| "digits_ok [c] = is_digit c"
| "digits_ok (c # d # cs) =
     (is_digit c \<and> (if d = CHR ''_'' then digits_ok cs else digits_ok (d # cs)))"

definition strip :: "string \<Rightarrow> string" where
  "strip s = rev (dropWhile is_space (rev (dropWhile is_space s)))"

text \<open>
  \<^verbatim>\<open>int(s)\<close> in base ten: \<open>None\<close> stands for \<^verbatim>\<open>ValueError\<close>. Python also raises
  \<^verbatim>\<open>ValueError\<close> on a numeral of several thousand digits; the only caller reacts to the
  error and to a value above 109 in the same way, so the limit is left out.
\<close>

definition py_int :: "string \<Rightarrow> int option" where
  "py_int s = (case strip s of
       [] \<Rightarrow> None
     | c # cs \<Rightarrow>
         if c = CHR ''+'' then (if digits_ok cs then Some (digits_value 0 cs) else None)
         else if c = CHR ''-'' then (if digits_ok cs then Some (- digits_value 0 cs) else None)
         else if digits_ok (c # cs) then Some (digits_value 0 (c # cs)) else None)"

fun dec :: "nat \<Rightarrow> string" where
  "dec n = (if n < 10 then [digit_char n] else dec (n div 10) @ [digit_char (n mod 10)])"

declare dec.simps [simp del]

text \<open>The format \<^verbatim>\<open>{n:02d}\<close>.\<close>

definition fmt02 :: "int \<Rightarrow> string" where
  "fmt02 n = (if n < 0 then CHR ''-'' # dec (nat (- n))
              else if n < 10 then CHR ''0'' # dec (nat n) else dec (nat n))"

definition startswith :: "string \<Rightarrow> string \<Rightarrow> bool" where
  "startswith s p = (take (length p) s = p)"

text \<open>\<^verbatim>\<open>s.split("-")[0]\<close>: the text before the first hyphen, all of \<open>s\<close> when it has none.\<close>

definition community_of :: "string \<Rightarrow> string" where
  "community_of s = takeWhile (\<lambda>c. c \<noteq> CHR ''-'') s"

text \<open>\<^verbatim>\<open>s.split("-")[1]\<close>: the text between the first hyphen and the next; \<open>None\<close>
  (\<^verbatim>\<open>IndexError\<close>) when \<open>s\<close> has no hyphen.\<close>

definition split_second :: "string \<Rightarrow> string option" where
  "split_second s = (case dropWhile (\<lambda>c. c \<noteq> CHR ''-'') s of
       [] \<Rightarrow> None
     | _ # rest \<Rightarrow> Some (takeWhile (\<lambda>c. c \<noteq> CHR ''-'') rest))"

subsection \<open>The two regular expressions\<close>

definition starts_word :: "string \<Rightarrow> bool" where
  "starts_word s = (case s of [] \<Rightarrow> False | c # _ \<Rightarrow> is_word c)"

text \<open>
  \<^verbatim>\<open>re.findall(r'\b(0\d{2}-\d{2})\b', text)\<close>, scanning left to right; \<open>pw\<close> tells whether
  the character before the current position is a word character. A match starts at a word
  boundary, so at a position whose predecessor is not a word character, and ends at one.
\<close>

fun find_full_format :: "bool \<Rightarrow> string \<Rightarrow> string list" where
  "find_full_format pw (a # b # c # h # d # e # rest) =
     (if \<not> pw \<and> a = CHR ''0'' \<and> is_digit b \<and> is_digit c \<and> h = CHR ''-''
         \<and> is_digit d \<and> is_digit e \<and> \<not> starts_word rest
      then [a, b, c, h, d, e] # find_full_format (is_word e) rest
      else find_full_format (is_word a) (b # c # h # d # e # rest))"
| "find_full_format pw _ = []"

text \<open>\<^verbatim>\<open>re.findall(r'\b(\d{2})\b', text)\<close>.\<close>

fun find_two_digit :: "bool \<Rightarrow> string \<Rightarrow> string list" where
  "find_two_digit pw (c # d # rest) =
     (if \<not> pw \<and> is_digit c \<and> is_digit d \<and> \<not> starts_word rest
      then [c, d] # find_two_digit (is_word d) rest
      else find_two_digit (is_word c) (d # rest))"
| "find_two_digit pw _ = []"

subsection \<open>Reference extraction\<close>

text \<open>
  The source collects the numbers of a page in a set and iterates over it. Python leaves
  the order of that iteration open; it depends on the numbers and on the order in which
  they were added. \<open>enum\<close> stands for it: from the numbers as they were added it gives the
  order of iteration. \<open>iteration\<close> keeps what \<open>enum\<close> lists of the numbers added, each once,
  and lets the numbers it leaves out follow, so that for every \<open>enum\<close> the result lists each
  number added exactly once, and every such list is the result for some \<open>enum\<close>.
\<close>

type_synonym set_order = "int list \<Rightarrow> int list"

definition iteration :: "set_order \<Rightarrow> int list \<Rightarrow> int list" where
  "iteration enum added =
     (let listed = remdups (filter (\<lambda>n. n \<in> set added) (enum added))
      in listed @ filter (\<lambda>n. n \<notin> set listed) (remdups added))"

text \<open>The numbers of one page kept as map references, in the order of the loop over them.\<close>

definition found_numbers :: "set_order \<Rightarrow> string \<Rightarrow> int list" where
  "found_numbers enum full_text =
     iteration enum (filter (\<lambda>num. 1 \<le> num \<and> num \<le> 50)
       (map (digits_value 0) (find_two_digit False full_text)))"

definition page_references :: "set_order \<Rightarrow> string \<Rightarrow> string list" where
  "page_references enum full_text =
     find_full_format False full_text
     @ map (\<lambda>num. ''001-'' @ fmt02 num) (found_numbers enum full_text)"

text \<open>
  What the text-extraction library gives for a stored file: opening fails, or there is a
  sequence of pages, each of which gives its text or fails.
\<close>

datatype error = OpenError | PageError

type_synonym page = "error + string"

type_synonym pdf = "error + page list"

text \<open>The loop over the pages: the references appended so far, and the error that stopped it.\<close>

fun scan_pages ::
  "set_order \<Rightarrow> page list \<Rightarrow> string list \<Rightarrow> string list \<times> error option" where
  "scan_pages enum [] references = (references, None)"
| "scan_pages enum (Inl e # ps) references = (references, Some e)"
| "scan_pages enum (Inr full_text # ps) references =
     scan_pages enum ps (references @ page_references enum full_text)"

definition fallback_refs :: "int \<Rightarrow> string list" where
  "fallback_refs current_num =
     map (\<lambda>adjacent_num. ''001-'' @ fmt02 adjacent_num)
       (filter (\<lambda>adjacent_num. 1 \<le> adjacent_num \<and> adjacent_num \<le> 99)
         (map (\<lambda>offset. current_num + offset) [- 1, 1, 10, - 10]))"

text \<open>The part after the page loop: duplicates and the current map removed, sorted.\<close>

definition cleaned :: "string \<Rightarrow> string list \<Rightarrow> string list" where
  "cleaned current_map references =
     sort (filter (\<lambda>ref. ref \<noteq> current_map) (remdups references))"

definition with_fallback :: "string \<Rightarrow> string list \<Rightarrow> string list" where
  "with_fallback current_map references =
     (if length references < 3 then
        (if startswith current_map ''001-'' then
           (case split_second current_map of
              None \<Rightarrow> references
            | Some field \<Rightarrow>
                (case py_int field of
                   None \<Rightarrow> references
                 | Some current_num \<Rightarrow> sort (remdups (references @ fallback_refs current_num))))
         else references)
      else references)"

text \<open>
  \<^verbatim>\<open>extract_map_references\<close>: \<open>current_map\<close> is the stem of the path, \<open>doc\<close> what the
  library gives for the file. An exception leaves the function through the handler, which
  returns the list as it is at that moment.
\<close>

definition extract_map_references :: "set_order \<Rightarrow> string \<Rightarrow> pdf \<Rightarrow> string list" where
  "extract_map_references enum current_map doc =
     (case doc of
        Inl e \<Rightarrow> []
      | Inr pages \<Rightarrow>
          (case scan_pages enum pages [] of
             (references, Some e) \<Rightarrow> references
           | (references, None) \<Rightarrow> with_fallback current_map (cleaned current_map references)))"

subsection \<open>The store, the origin server and the fetch gateway\<close>

text \<open>
  The world the crawler acts on. The store maps a map ID to the stored file, given as what
  the text-extraction library makes of it. \<open>requests\<close> counts the HTTP requests sent so
  far. \<open>trace\<close> records, in order, each call of \<^verbatim>\<open>download_pdf\<close> with its result,
  each call of \<^verbatim>\<open>time.sleep\<close>, and each ID the prober passes over because its file is
  there.

  The file \<^verbatim>\<open>{map_id}.pdf\<close> is keyed by the map ID, which is the stem of its path when
  the ID is not empty and has no path separator. Writing a file is taken to succeed, and
  nothing but the crawler changes the store during a run.
\<close>

datatype event = Fetch string bool | Delay | Skipped string

record world =
  store :: "string \<rightharpoonup> pdf"
  requests :: nat
  trace :: "event list"

text \<open>
  The origin server: the answer to the \<open>n\<close>-th request, for a map ID, is a document or a
  failure (\<^verbatim>\<open>RequestException\<close>). The answer may change from one request to the next.
\<close>

type_synonym origin = "nat \<Rightarrow> string \<Rightarrow> pdf option"

definition log_event :: "event \<Rightarrow> world \<Rightarrow> world" where
  "log_event e w = w\<lparr>trace := trace w @ [e]\<rparr>"

definition sleep :: "world \<Rightarrow> world" where
  "sleep w = log_event Delay w"

definition file_exists :: "world \<Rightarrow> string \<Rightarrow> bool" where
  "file_exists w map_id = (store w map_id \<noteq> None)"

text \<open>Opening a stored file; a missing file makes the library raise.\<close>

definition read_pdf :: "world \<Rightarrow> string \<Rightarrow> pdf" where
  "read_pdf w map_id = (case store w map_id of None \<Rightarrow> Inl OpenError | Some doc \<Rightarrow> doc)"

definition download_pdf :: "origin \<Rightarrow> string \<Rightarrow> world \<Rightarrow> bool \<times> world" where
  "download_pdf org map_id w =
     (if file_exists w map_id then (True, log_event (Fetch map_id True) w)
      else (case org (requests w) map_id of
              Some content \<Rightarrow>
                (True, log_event (Fetch map_id True)
                   (w\<lparr>store := (store w)(map_id \<mapsto> content), requests := requests w + 1\<rparr>))
            | None \<Rightarrow>
                (False, log_event (Fetch map_id False) (w\<lparr>requests := requests w + 1\<rparr>))))"

subsection \<open>The traversal engine\<close>

record crawl_state =
  queue :: "string list"
  processed :: "string set"
  failed :: "string set"
  env :: world

text \<open>The loop that appends the new references of one document to the queue.\<close>

fun add_references ::
  "string \<Rightarrow> string set \<Rightarrow> string set \<Rightarrow> string list \<Rightarrow> string list \<Rightarrow> string list" where
  "add_references community_prefix ps fs [] q = q"
| "add_references community_prefix ps fs (ref # references) q =
     add_references community_prefix ps fs references
       (if startswith ref (community_prefix @ ''-'') \<and> ref \<notin> ps \<and> ref \<notin> fs \<and> ref \<notin> set q
        then q @ [ref] else q)"

text \<open>One iteration of the \<^verbatim>\<open>while queue:\<close> loop of \<^verbatim>\<open>crawl_plat_maps\<close>.\<close>

definition crawl_step ::
  "origin \<Rightarrow> set_order \<Rightarrow> string \<Rightarrow> crawl_state \<Rightarrow> crawl_state" where
  "crawl_step org enum community_prefix s =
     (case queue s of
        [] \<Rightarrow> s
      | current_map # rest \<Rightarrow>
          if current_map \<in> processed s then s\<lparr>queue := rest\<rparr>
          else if current_map \<in> failed s then s\<lparr>queue := rest\<rparr>
          else (case download_pdf org current_map (env s) of
                  (success, w) \<Rightarrow>
                    if \<not> success
                    then s\<lparr>queue := rest, failed := insert current_map (failed s), env := w\<rparr>
                    else
                      (let ps = insert current_map (processed s);
                           w' = sleep w;
                           references =
                             extract_map_references enum current_map
                               (read_pdf w' current_map)
                       in s\<lparr>queue :=
                              add_references community_prefix ps (failed s) references rest,
                            processed := ps, env := w'\<rparr>)))"

partial_function (option) crawl_loop ::
  "origin \<Rightarrow> set_order \<Rightarrow> string \<Rightarrow> crawl_state \<Rightarrow> crawl_state option" where
  "crawl_loop org enum community_prefix s =
     (if queue s = [] then Some s
      else crawl_loop org enum community_prefix (crawl_step org enum community_prefix s))"

definition crawl_init :: "string \<Rightarrow> world \<Rightarrow> crawl_state" where
  "crawl_init starting_map w =
     \<lparr>queue = [starting_map], processed = {}, failed = {}, env = w\<rparr>"

text \<open>
  \<^verbatim>\<open>crawl_plat_maps\<close>: the two counts it returns, and the world it leaves behind. \<open>None\<close>
  would mean that the loop does not end.
\<close>

definition crawl_plat_maps ::
  "origin \<Rightarrow> set_order \<Rightarrow> string \<Rightarrow> world \<Rightarrow> ((nat \<times> nat) \<times> world) option" where
  "crawl_plat_maps org enum starting_map w =
     map_option (\<lambda>s. ((card (processed s), card (failed s)), env s))
       (crawl_loop org enum (community_of starting_map) (crawl_init starting_map w))"

subsection \<open>The systematic prober\<close>

record probe_state =
  discovered :: "string set"
  consecutive_failures :: nat
  penv :: world

definition max_consecutive_failures :: nat where
  "max_consecutive_failures = 10"

text \<open>
  The \<^verbatim>\<open>for i in range(1, max_attempts + 1)\<close> loop of \<^verbatim>\<open>systematic_discovery\<close>, from
  \<open>i\<close> on.
\<close>

function systematic_loop :: "origin \<Rightarrow> string \<Rightarrow> int \<Rightarrow> int \<Rightarrow> probe_state \<Rightarrow> probe_state" where
  "systematic_loop org community_prefix max_attempts i st =
     (if max_attempts < i then st
      else
        (let map_id = community_prefix @ ''-'' @ fmt02 i in
         if file_exists (penv st) map_id
         then systematic_loop org community_prefix max_attempts (i + 1)
                (st\<lparr>discovered := insert map_id (discovered st), consecutive_failures := 0,
                    penv := log_event (Skipped map_id) (penv st)\<rparr>)
         else (case download_pdf org map_id (penv st) of
                 (success, w) \<Rightarrow>
                   if success
                   then systematic_loop org community_prefix max_attempts (i + 1)
                          (st\<lparr>discovered := insert map_id (discovered st),
                              consecutive_failures := 0, penv := sleep w\<rparr>)
                   else if max_consecutive_failures \<le> consecutive_failures st + 1
                   then st\<lparr>consecutive_failures := consecutive_failures st + 1, penv := w\<rparr>
                   else systematic_loop org community_prefix max_attempts (i + 1)
                          (st\<lparr>consecutive_failures := consecutive_failures st + 1,
                              penv := sleep w\<rparr>))))"
  by pat_completeness auto
termination
  by (relation "measure (\<lambda>(org, community_prefix, max_attempts, i, st). nat (max_attempts + 1 - i))")
    auto

declare systematic_loop.simps [simp del]

definition systematic_discovery :: "origin \<Rightarrow> string \<Rightarrow> int \<Rightarrow> world \<Rightarrow> probe_state" where
  "systematic_discovery org community_prefix max_attempts w =
     systematic_loop org community_prefix max_attempts 1
       \<lparr>discovered = {}, consecutive_failures = 0, penv = w\<rparr>"

subsection \<open>The hybrid orchestrator\<close>

text \<open>Phase 3: the references of the discovered maps that are not in the store.\<close>

fun collect_new ::
  "set_order \<Rightarrow> string \<Rightarrow> world \<Rightarrow> string list \<Rightarrow> string list \<Rightarrow> string list" where
  "collect_new enum community_prefix w [] newly_discovered = newly_discovered"
| "collect_new enum community_prefix w (map_id # ids) newly_discovered =
     collect_new enum community_prefix w ids
       (if file_exists w map_id
        then newly_discovered
             @ filter (\<lambda>ref. startswith ref (community_prefix @ ''-'') \<and> \<not> file_exists w ref)
                 (extract_map_references enum map_id (read_pdf w map_id))
        else newly_discovered)"

text \<open>Phase 4: the two counters and the world, through the loop over the new references.\<close>

fun download_additional ::
  "origin \<Rightarrow> string list \<Rightarrow> nat \<times> nat \<times> world \<Rightarrow> nat \<times> nat \<times> world" where
  "download_additional org [] acc = acc"
| "download_additional org (ref # refs) (additional_processed, additional_failed, w) =
     (case download_pdf org ref w of
        (success, w') \<Rightarrow>
          download_additional org refs
            (if success then (additional_processed + 1, additional_failed, sleep w')
             else (additional_processed, additional_failed + 1, sleep w')))"

text \<open>
  The values \<^verbatim>\<open>hybrid_crawl_community\<close> computes on its way, with the world after each
  phase. \<open>iter\<close> is the order in which Python enumerates the discovered set.
\<close>

record phases =
  processed_pdf :: nat
  failed_pdf :: nat
  after_crawl :: world
  discovered_systematic :: "string set"
  after_discovery :: world
  additional_processed :: nat
  additional_failed :: nat
  after_additional :: world

definition hybrid_phases ::
  "origin \<Rightarrow> set_order \<Rightarrow> (string set \<Rightarrow> string list) \<Rightarrow> string \<Rightarrow> world
     \<Rightarrow> phases option" where
  "hybrid_phases org enum iter starting_map w =
     (case crawl_plat_maps org enum starting_map w of
        None \<Rightarrow> None
      | Some ((p, f), w1) \<Rightarrow>
          (let community_prefix = community_of starting_map;
               st = systematic_discovery org community_prefix 100 w1;
               w2 = penv st;
               newly_discovered =
                 collect_new enum community_prefix w2 (iter (discovered st)) []
           in (case download_additional org newly_discovered (0, 0, w2) of
                 (ap, af, w3) \<Rightarrow>
                   Some \<lparr>processed_pdf = p, failed_pdf = f, after_crawl = w1,
                         discovered_systematic = discovered st, after_discovery = w2,
                         additional_processed = ap, additional_failed = af,
                         after_additional = w3\<rparr>)))"

definition hybrid_crawl_community ::
  "origin \<Rightarrow> set_order \<Rightarrow> (string set \<Rightarrow> string list) \<Rightarrow> string \<Rightarrow> world
     \<Rightarrow> (nat \<times> nat) option" where
  "hybrid_crawl_community org enum iter starting_map w =
     map_option
       (\<lambda>r. (processed_pdf r + card (discovered_systematic r) + additional_processed r,
             failed_pdf r + additional_failed r))
       (hybrid_phases org enum iter starting_map w)"

subsection \<open>Reading the trace\<close>

text \<open>The events a run adds to the trace of the world it started in.\<close>

definition new_events :: "world \<Rightarrow> world \<Rightarrow> event list" where
  "new_events w w' = drop (length (trace w)) (trace w')"

fun failed_fetches :: "event list \<Rightarrow> nat" where
  "failed_fetches [] = 0"
| "failed_fetches (Fetch map_id ok # es) = (if ok then 0 else 1) + failed_fetches es"
| "failed_fetches (e # es) = failed_fetches es"

fun fetched_ids :: "event list \<Rightarrow> string list" where
  "fetched_ids [] = []"
| "fetched_ids (Fetch map_id ok # es) = map_id # fetched_ids es"
| "fetched_ids (e # es) = fetched_ids es"

text \<open>
  The prober's counter as the trace tells it: a skipped ID and a successful fetch set it to
  zero, a failed fetch adds one, a delay leaves it.
\<close>

fun streak :: "nat \<Rightarrow> event list \<Rightarrow> nat" where
  "streak c [] = c"
| "streak c (Fetch map_id ok # es) = streak (if ok then 0 else c + 1) es"
| "streak c (Skipped map_id # es) = streak 0 es"
| "streak c (Delay # es) = streak c es"

text \<open>
  No event happens once the counter has reached the cutoff.
\<close>

fun below_cutoff :: "nat \<Rightarrow> event list \<Rightarrow> bool" where
  "below_cutoff c [] = True"
| "below_cutoff c (e # es) = (c < max_consecutive_failures \<and> below_cutoff (streak c [e]) es)"

text \<open>
  The IDs the prober looked at, skipped or fetched, in order.
\<close>

fun probed_ids :: "event list \<Rightarrow> string list" where
  "probed_ids [] = []"
| "probed_ids (Fetch map_id ok # es) = map_id # probed_ids es"
| "probed_ids (Skipped map_id # es) = map_id # probed_ids es"
| "probed_ids (Delay # es) = probed_ids es"

text \<open>
  The IDs the prober found: skipped because stored, or fetched with success.
\<close>

fun found_ids :: "event list \<Rightarrow> string list" where
  "found_ids [] = []"
| "found_ids (Fetch map_id ok # es) = (if ok then map_id # found_ids es else found_ids es)"
| "found_ids (Skipped map_id # es) = map_id # found_ids es"
| "found_ids (Delay # es) = found_ids es"

text \<open>
  A trace of the prober checked against the store and the origin, from the files stored and
  the number of requests sent when it starts. A skipped ID has its file in the store. A
  fetched ID has none; its fetch is the next request to the origin, it succeeds when the
  origin answers with a document, which is then stored, and fails when the origin does not.
\<close>

fun sweep_consistent :: "origin \<Rightarrow> (string \<rightharpoonup> pdf) \<Rightarrow> nat \<Rightarrow> event list \<Rightarrow> bool" where
  "sweep_consistent org files n [] = True"
| "sweep_consistent org files n (Skipped map_id # es) =
     (files map_id \<noteq> None \<and> sweep_consistent org files n es)"
| "sweep_consistent org files n (Fetch map_id ok # es) =
     (files map_id = None
      \<and> (case org n map_id of
            Some content \<Rightarrow> ok \<and> sweep_consistent org (files(map_id \<mapsto> content)) (n + 1) es
          | None \<Rightarrow> \<not> ok \<and> sweep_consistent org files (n + 1) es))"
| "sweep_consistent org files n (Delay # es) = sweep_consistent org files n es"

text \<open>The files stored after such a trace.\<close>

fun files_after :: "origin \<Rightarrow> (string \<rightharpoonup> pdf) \<Rightarrow> nat \<Rightarrow> event list \<Rightarrow> (string \<rightharpoonup> pdf)" where
  "files_after org files n [] = files"
| "files_after org files n (Fetch map_id ok # es) =
     (case org n map_id of
        Some content \<Rightarrow> files_after org (files(map_id \<mapsto> content)) (n + 1) es
      | None \<Rightarrow> files_after org files (n + 1) es)"
| "files_after org files n (e # es) = files_after org files n es"

text \<open>
  The failed fetches of the probing phase of a hybrid run.
\<close>

definition probe_failures :: "phases \<Rightarrow> nat" where
  "probe_failures r = failed_fetches (new_events (after_crawl r) (after_discovery r))"

subsection \<open>Auxiliary notions for the proofs\<close>

text \<open>Every reference the extractor can return has six characters.\<close>

definition ref_space :: "string set" where
  "ref_space = {r. length r = 6}"

text \<open>The IDs that can still be fetched: possible references and queued IDs not yet handled.\<close>

definition pending :: "crawl_state \<Rightarrow> string set" where
  "pending s = (ref_space \<union> set (queue s)) - (processed s \<union> failed s)"

definition crawl_order :: "(crawl_state \<times> crawl_state) set" where
  "crawl_order =
     inv_image (less_than <*lex*> less_than) (\<lambda>s. (card (pending s), length (queue s)))"

subsection \<open>Concrete worlds\<close>

definition empty_world :: world where
  "empty_world = \<lparr>store = Map.empty, requests = 0, trace = []\<rparr>"

text \<open>
  The iteration that lists the numbers of a set in ascending order. It stands in where a
  statement about one run needs an order; the runs taken there read no numeral from a page
  that is followed by a failing one, so they are the same for every order.
\<close>

definition ascending :: set_order where
  "ascending added = sort added"

text \<open>The iteration that lists the numbers added last first.\<close>

definition latest_first :: set_order where
  "latest_first added = rev added"

text \<open>A store that holds one map of community 002, and an origin that has another.\<close>

definition one_file_world :: world where
  "one_file_world = \<lparr>store = [''002-02'' \<mapsto> Inr []], requests = 0, trace = []\<rparr>"

definition probe_origin :: origin where
  "probe_origin n map_id = (if map_id = ''002-01'' then Some (Inr []) else None)"

text \<open>An origin on which every request fails.\<close>

definition dead_origin :: origin where
  "dead_origin n map_id = None"

text \<open>An origin that has one map, a document without pages.\<close>

definition first_only_origin :: origin where
  "first_only_origin n map_id = (if map_id = ''001-01'' then Some (Inr []) else None)"

declare crawl_loop.simps [code]

section \<open>Properties of the extractor\<close>

lemma set_iteration: "set (iteration enum added) = set added"
  by (auto simp: iteration_def Let_def)

lemma distinct_iteration: "distinct (iteration enum added)"
  by (auto simp: iteration_def Let_def)

lemma iteration_covers:
  assumes "distinct e" and "set e = set added"
  shows "iteration (\<lambda>added. e) added = e"
proof -
  have "filter (\<lambda>n. n \<in> set added) e = e"
    using assms(2) by (simp add: filter_id_conv)
  moreover have "filter (\<lambda>n. n \<notin> set e) (remdups added) = []"
    using assms(2) by (simp add: filter_empty_conv)
  ultimately show ?thesis
    using assms(1) by (simp add: iteration_def Let_def distinct_remdups_id)
qed

lemma scan_pages_all_ok:
  "scan_pages enum (map Inr texts) acc = (acc @ concat (map (page_references enum) texts), None)"
  by (induction texts arbitrary: acc) simp_all

lemma scan_pages_failing:
  "scan_pages enum (map Inr texts @ Inl e # ps) acc
     = (acc @ concat (map (page_references enum) texts), Some e)"
  by (induction texts arbitrary: acc) simp_all




lemma digit_char_0: "digit_char 0 = CHR ''0''"
  by code_simp

lemma fmt02_two_digits:
  assumes "0 \<le> m" "m \<le> 99"
  shows "fmt02 m = [digit_char (nat m div 10), digit_char (nat m mod 10)]"
proof (cases "m < 10")
  case True
  with assms have "nat m < 10" by simp
  with True assms show ?thesis
    by (simp add: fmt02_def dec.simps [of "nat m"] digit_char_0)
next
  case False
  with assms have "nat m div 10 < 10" by simp
  with False assms show ?thesis
    by (simp add: fmt02_def dec.simps [of "nat m"] dec.simps [of "nat m div 10"])
qed








lemma set_fallback_refs:
  "set (fallback_refs n) =
     (\<lambda>a. ''001-'' @ fmt02 a) ` {a \<in> {n - 1, n + 1, n + 10, n - 10}. 1 \<le> a \<and> a \<le> 99}"
  by (auto simp: fallback_refs_def)



lemma extract_all_ok:
  "extract_map_references enum cur (Inr (map Inr texts))
     = with_fallback cur (cleaned cur (concat (map (page_references enum) texts)))"
  by (simp add: extract_map_references_def scan_pages_all_ok)

lemma add_references_appends:
  "\<exists>new. add_references cp ps fs refs q = q @ new \<and> distinct new
     \<and> set new \<subseteq> {r \<in> set refs. startswith r (cp @ ''-'') \<and> r \<notin> ps \<and> r \<notin> fs \<and> r \<notin> set q}"
proof (induction refs arbitrary: q)
  case Nil
  show ?case by simp
next
  case (Cons a refs)
  show ?case
  proof (cases "startswith a (cp @ ''-'') \<and> a \<notin> ps \<and> a \<notin> fs \<and> a \<notin> set q")
    case True
    from Cons.IH [of "q @ [a]"] obtain new where
      new: "add_references cp ps fs refs (q @ [a]) = (q @ [a]) @ new" "distinct new"
        "set new \<subseteq> {r \<in> set refs. startswith r (cp @ ''-'') \<and> r \<notin> ps \<and> r \<notin> fs
                       \<and> r \<notin> set (q @ [a])}"
      by blast
    from new(3) have "a \<notin> set new" by auto
    with new True have "add_references cp ps fs (a # refs) q = q @ (a # new)
      \<and> distinct (a # new)
      \<and> set (a # new) \<subseteq> {r \<in> set (a # refs). startswith r (cp @ ''-'') \<and> r \<notin> ps
                             \<and> r \<notin> fs \<and> r \<notin> set q}"
      by auto
    then show ?thesis by blast
  next
    case False
    from Cons.IH [of q] obtain new where
      new: "add_references cp ps fs refs q = q @ new" "distinct new"
        "set new \<subseteq> {r \<in> set refs. startswith r (cp @ ''-'') \<and> r \<notin> ps \<and> r \<notin> fs \<and> r \<notin> set q}"
      by blast
    with False have "add_references cp ps fs (a # refs) q = q @ new \<and> distinct new
      \<and> set new \<subseteq> {r \<in> set (a # refs). startswith r (cp @ ''-'') \<and> r \<notin> ps
                       \<and> r \<notin> fs \<and> r \<notin> set q}"
      by auto
    then show ?thesis by blast
  qed
qed

text \<open>When no page fails, the result does not depend on the order of iteration.\<close>

lemma set_page_references:
  "set (page_references enum full_text) = set (page_references enum' full_text)"
  by (simp add: page_references_def found_numbers_def set_iteration)

lemma cleaned_cong: "set xs = set ys \<Longrightarrow> cleaned cur xs = cleaned cur ys"
  by (rule sorted_distinct_set_unique) (simp_all add: cleaned_def)

lemma extract_order_free:
  "extract_map_references enum cur (Inr (map Inr texts))
     = extract_map_references enum' cur (Inr (map Inr texts))"
proof -
  have "set (concat (map (page_references enum) texts))
      = set (concat (map (page_references enum') texts))"
    using set_page_references [of enum _ enum'] by auto
  then have "cleaned cur (concat (map (page_references enum) texts))
      = cleaned cur (concat (map (page_references enum') texts))"
    by (rule cleaned_cong)
  then show ?thesis
    unfolding extract_all_ok by simp
qed



text \<open>
  Claim C2 on the code: for the document \<^verbatim>\<open>002-01\<close> whose text is \<^verbatim>\<open>05\<close>, the numeral is kept,
  in the range 1 to 50, and is given the community \<^verbatim>\<open>001\<close>, which the source writes as a
  literal, not the community \<^verbatim>\<open>002\<close> of the document.
\<close>

theorem short_numeral_hard_coded_community:
  "extract_map_references ascending ''002-01'' (Inr [Inr ''05'']) = [''001-05'']"
  by code_simp

text \<open>
  Claim C3, as the code has it. Let \<open>found\<close> be the candidates of the two passes, without
  duplicates and without the document's own ID. With three or more of them the result is
  \<open>found\<close>. For a document whose ID does not begin with \<^verbatim>\<open>001-\<close> the result is \<open>found\<close> as
  well: the fallback is written for that community alone. With fewer than three, an ID that
  begins with \<^verbatim>\<open>001-\<close> and a sequence field that \<^verbatim>\<open>int\<close> reads as \<open>s\<close>, the result holds
  \<open>found\<close> and the IDs \<^verbatim>\<open>001-NN\<close> for exactly those of \<open>s - 1\<close>, \<open>s + 1\<close>, \<open>s + 10\<close>, \<open>s - 10\<close>
  that lie between 1 and 99.
\<close>

theorem fallback_rule:
  fixes enum :: set_order and self_id :: string and texts :: "string list"
  defines "found \<equiv> cleaned self_id (concat (map (page_references enum) texts))"
  defines "result \<equiv> extract_map_references enum self_id (Inr (map Inr texts))"
  shows "(3 \<le> length found \<longrightarrow> result = found)
    \<and> (\<not> startswith self_id ''001-'' \<longrightarrow> result = found)
    \<and> (length found < 3 \<and> startswith self_id ''001-''
         \<and> split_second self_id = Some field \<and> py_int field = Some s
       \<longrightarrow> set result = set found \<union>
             (\<lambda>a. ''001-'' @ fmt02 a) ` {a \<in> {s - 1, s + 1, s + 10, s - 10}. 1 \<le> a \<and> a \<le> 99})"
  unfolding result_def found_def extract_all_ok
  by (simp add: with_fallback_def set_fallback_refs)

theorem fallback_rule_witness:
  "3 \<le> length (cleaned ''001-01'' (concat (map (page_references ascending) [''02 03 04''])))
   \<and> extract_map_references ascending ''001-01'' (Inr (map Inr [''02 03 04'']))
       = [''001-02'', ''001-03'', ''001-04'']
   \<and> \<not> startswith ''002-05'' ''001-''
   \<and> extract_map_references ascending ''002-05'' (Inr (map Inr [])) = []
   \<and> length (cleaned ''001-07'' (concat (map (page_references ascending) []))) < 3
   \<and> startswith ''001-07'' ''001-''
   \<and> split_second ''001-07'' = Some ''07'' \<and> py_int ''07'' = Some 7
   \<and> set (extract_map_references ascending ''001-07'' (Inr (map Inr [])))
       = {''001-06'', ''001-08'', ''001-17''}"
proof -
  have h1: "3 \<le> length (cleaned ''001-01'' (concat (map (page_references ascending) [''02 03 04''])))"
    by code_simp
  have c1: "cleaned ''001-01'' (concat (map (page_references ascending) [''02 03 04'']))
      = [''001-02'', ''001-03'', ''001-04'']"
    by code_simp
  have r1: "extract_map_references ascending ''001-01'' (Inr (map Inr [''02 03 04'']))
      = [''001-02'', ''001-03'', ''001-04'']"
    using fallback_rule [where enum = ascending and self_id = "''001-01''" and texts = "[''02 03 04'']"] h1 c1
    by simp
  have h2: "\<not> startswith ''002-05'' ''001-''"
    by code_simp
  have c2: "cleaned ''002-05'' (concat (map (page_references ascending) [])) = []"
    by code_simp
  have r2: "extract_map_references ascending ''002-05'' (Inr (map Inr [])) = []"
    using fallback_rule [where enum = ascending and self_id = "''002-05''" and texts = "[]"] h2 c2 by simp
  have h3: "length (cleaned ''001-07'' (concat (map (page_references ascending) []))) < 3"
    "startswith ''001-07'' ''001-''" "split_second ''001-07'' = Some ''07''"
    "py_int ''07'' = Some 7"
    by code_simp+
  have c3: "cleaned ''001-07'' (concat (map (page_references ascending) [])) = []"
    by code_simp
  have near: "{a \<in> {(7::int) - 1, 7 + 1, 7 + 10, 7 - 10}. 1 \<le> a \<and> a \<le> 99} = {6, 8, 17}"
    by auto
  have f: "fmt02 6 = ''06''" "fmt02 8 = ''08''" "fmt02 17 = ''17''"
    by code_simp+
  have r3: "set (extract_map_references ascending ''001-07'' (Inr (map Inr [])))
      = {''001-06'', ''001-08'', ''001-17''}"
    using fallback_rule [where enum = ascending and self_id = "''001-07''" and texts = "[]" and field = "''07''"
        and s = 7] h3 c3
    by (simp only: near) (simp add: f)
  from h1 r1 h2 r2 h3 r3 show ?thesis by blast
qed

text \<open>
  Claim C3 as stated fails: the document \<^verbatim>\<open>002-05\<close> without any candidate gets no fallback
  candidate at all.
\<close>

theorem fallback_other_community_counterexample:
  "length (cleaned ''002-05'' (concat (map (page_references ascending) []))) < 3
   \<and> extract_map_references ascending ''002-05'' (Inr (map Inr [])) = []"
  by code_simp

lemma extract_failure_raw:
  "extract_map_references enum current_map (Inr (map Inr texts @ Inl e # ps))
     = concat (map (page_references enum) texts)"
  by (simp add: extract_map_references_def scan_pages_failing)

text \<open>
  Claim C8, as the code has it. The extractor is a total function: it returns a list on
  every input. When the document cannot be opened, or its first page fails, the list is
  empty. When a later page fails, the IDs returned, the document's own ID apart, are exactly
  the candidates of the two passes on the pages before the failing one.
\<close>

theorem extract_failure_partial:
  "extract_map_references enum current_map (Inl e) = []
   \<and> extract_map_references enum current_map (Inr (Inl e # ps)) = []
   \<and> set (extract_map_references enum current_map (Inr (map Inr texts @ Inl e # ps)))
         - {current_map}
       = (\<Union>full_text \<in> set texts. set (page_references enum full_text)) - {current_map}"
proof -
  have "extract_map_references enum current_map (Inl e) = []"
    by (simp add: extract_map_references_def)
  moreover have "extract_map_references enum current_map (Inr (Inl e # ps)) = []"
    using extract_failure_raw [of enum current_map "[]" e ps] by simp
  moreover have "set (extract_map_references enum current_map (Inr (map Inr texts @ Inl e # ps)))
      = (\<Union>full_text \<in> set texts. set (page_references enum full_text))"
    by (simp add: extract_failure_raw)
  ultimately show ?thesis by simp
qed

text \<open>On this path the order of iteration shows in the list.\<close>

lemma extract_failure_order_example:
  "extract_map_references ascending ''001-05'' (Inr [Inr ''01 08'', Inl PageError])
     = [''001-01'', ''001-08'']
   \<and> extract_map_references latest_first ''001-05'' (Inr [Inr ''01 08'', Inl PageError])
     = [''001-08'', ''001-01'']"
  by code_simp

text \<open>
  Claim C8 as stated fails: when the second page fails, the reference found on the first
  page is returned. A single number leaves no choice of order.
\<close>

theorem extract_failure_nonempty_counterexample:
  "extract_map_references ascending ''001-01'' (Inr [Inr ''12'', Inl PageError]) = [''001-12'']"
  by code_simp

section \<open>Properties of the traversal engine\<close>

lemma find_full_format_length: "r \<in> set (find_full_format pw s) \<Longrightarrow> length r = 6"
  by (induction pw s rule: find_full_format.induct) (auto split: if_splits)

lemma find_two_digit_digits:
  "m \<in> set (find_two_digit pw s) \<Longrightarrow> \<exists>c d. m = [c, d] \<and> is_digit c \<and> is_digit d"
  by (induction pw s rule: find_two_digit.induct) (auto split: if_splits)

lemma length_fmt02: "0 \<le> m \<Longrightarrow> m \<le> 99 \<Longrightarrow> length (fmt02 m) = 2"
  by (simp add: fmt02_two_digits)

lemma found_numbers_range: "n \<in> set (found_numbers enum t) \<Longrightarrow> 1 \<le> n \<and> n \<le> 50"
  by (auto simp: found_numbers_def set_iteration)

lemma page_references_length: "r \<in> set (page_references enum t) \<Longrightarrow> length r = 6"
  by (auto simp: page_references_def find_full_format_length length_fmt02
      dest!: found_numbers_range)

lemma scan_pages_length:
  "(\<And>r. r \<in> set acc \<Longrightarrow> length r = 6) \<Longrightarrow> r \<in> set (fst (scan_pages enum pages acc))
     \<Longrightarrow> length r = 6"
proof (induction enum pages acc rule: scan_pages.induct)
  case (3 enum full_text ps references)
  show ?case
  proof (rule "3.IH")
    fix r assume "r \<in> set (references @ page_references enum full_text)"
    then show "length r = 6" using "3.prems"(1) page_references_length by auto
  next
    show "r \<in> set (fst (scan_pages enum ps (references @ page_references enum full_text)))"
      using "3.prems"(2) by simp
  qed
qed simp_all

lemma fallback_refs_length: "r \<in> set (fallback_refs n) \<Longrightarrow> length r = 6"
  by (auto simp: set_fallback_refs length_fmt02)

lemma with_fallback_subset:
  "set (with_fallback cur refs) \<subseteq> set refs \<union> (\<Union>n. set (fallback_refs n))"
  by (auto simp: with_fallback_def split: option.splits)

lemma extract_length: "r \<in> set (extract_map_references enum cur doc) \<Longrightarrow> length r = 6"
proof (cases doc)
  case (Inl e)
  then show "r \<in> set (extract_map_references enum cur doc) \<Longrightarrow> length r = 6"
    by (simp add: extract_map_references_def)
next
  case (Inr pages)
  assume r: "r \<in> set (extract_map_references enum cur doc)"
  obtain refs err where sp: "scan_pages enum pages [] = (refs, err)" by (cases "scan_pages enum pages []")
  have len: "\<And>x. x \<in> set refs \<Longrightarrow> length x = 6"
    using scan_pages_length [where acc = "[]" and pages = pages and enum = enum] sp by simp
  show "length r = 6"
  proof (cases err)
    case None
    with r Inr sp have "r \<in> set (with_fallback cur (cleaned cur refs))"
      by (simp add: extract_map_references_def)
    with with_fallback_subset have "r \<in> set (cleaned cur refs) \<or> (\<exists>n. r \<in> set (fallback_refs n))"
      by blast
    then show ?thesis using len fallback_refs_length by (auto simp: cleaned_def)
  next
    case (Some e)
    with r Inr sp have "r \<in> set refs" by (simp add: extract_map_references_def)
    then show ?thesis by (rule len)
  qed
qed

lemma finite_ref_space: "finite ref_space"
  using finite_lists_length_eq [of "UNIV :: char set" 6] by (simp add: ref_space_def)

lemma fetched_ids_append: "fetched_ids (xs @ ys) = fetched_ids xs @ fetched_ids ys"
  by (induction xs rule: fetched_ids.induct) simp_all

lemma failed_fetches_append: "failed_fetches (xs @ ys) = failed_fetches xs + failed_fetches ys"
  by (induction xs rule: failed_fetches.induct) simp_all

lemma sleep_simps:
  "store (sleep w) = store w" "requests (sleep w) = requests w"
  "trace (sleep w) = trace w @ [Delay]"
  by (simp_all add: sleep_def log_event_def)

lemma download_pdf_trace:
  "download_pdf org map_id w = (ok, w') \<Longrightarrow> trace w' = trace w @ [Fetch map_id ok]"
  by (auto simp: download_pdf_def log_event_def split: if_splits option.splits)

lemma download_pdf_store:
  "download_pdf org map_id w = (ok, w') \<Longrightarrow>
     dom (store w) \<subseteq> dom (store w') \<and> dom (store w') \<subseteq> insert map_id (dom (store w))
     \<and> (ok \<longrightarrow> map_id \<in> dom (store w'))"
  by (auto simp: download_pdf_def log_event_def file_exists_def split: if_splits option.splits)

lemma crawl_step_empty: "queue s = [] \<Longrightarrow> crawl_step org enum cp s = s"
  by (simp add: crawl_step_def)

lemma crawl_step_cases:
  assumes q: "queue s = cur # rest"
  obtains
    (skip) "cur \<in> processed s \<union> failed s" "crawl_step org enum cp s = s\<lparr>queue := rest\<rparr>"
  | (fail) w where "cur \<notin> processed s \<union> failed s" "download_pdf org cur (env s) = (False, w)"
      "crawl_step org enum cp s = s\<lparr>queue := rest, failed := insert cur (failed s), env := w\<rparr>"
  | (ok) w new where "cur \<notin> processed s \<union> failed s" "download_pdf org cur (env s) = (True, w)"
      "crawl_step org enum cp s
         = s\<lparr>queue := rest @ new, processed := insert cur (processed s), env := sleep w\<rparr>"
      "distinct new"
      "set new \<subseteq> {r. length r = 6 \<and> startswith r (cp @ ''-'') \<and> r \<noteq> cur
                      \<and> r \<notin> processed s \<and> r \<notin> failed s \<and> r \<notin> set rest}"
proof (cases "cur \<in> processed s \<union> failed s")
  case True
  with q have "crawl_step org enum cp s = s\<lparr>queue := rest\<rparr>" by (auto simp: crawl_step_def)
  with True show ?thesis by (rule skip)
next
  case False
  obtain success w where d: "download_pdf org cur (env s) = (success, w)"
    by (cases "download_pdf org cur (env s)")
  show ?thesis
  proof (cases success)
    case False
    with \<open>cur \<notin> processed s \<union> failed s\<close> q d
    have "crawl_step org enum cp s = s\<lparr>queue := rest, failed := insert cur (failed s), env := w\<rparr>"
      by (simp add: crawl_step_def)
    with \<open>cur \<notin> processed s \<union> failed s\<close> d False show ?thesis by (auto intro: fail)
  next
    case True
    define refs where "refs = extract_map_references enum cur (read_pdf (sleep w) cur)"
    from add_references_appends [of cp "insert cur (processed s)" "failed s" refs rest]
    obtain new where new: "add_references cp (insert cur (processed s)) (failed s) refs rest
        = rest @ new" "distinct new"
      "set new \<subseteq> {r \<in> set refs. startswith r (cp @ ''-'') \<and> r \<notin> insert cur (processed s)
                      \<and> r \<notin> failed s \<and> r \<notin> set rest}"
      by blast
    from \<open>cur \<notin> processed s \<union> failed s\<close> q d True new(1)
    have st: "crawl_step org enum cp s
         = s\<lparr>queue := rest @ new, processed := insert cur (processed s), env := sleep w\<rparr>"
      by (simp add: crawl_step_def refs_def Let_def)
    have "set new \<subseteq> {r. length r = 6 \<and> startswith r (cp @ ''-'') \<and> r \<noteq> cur
                      \<and> r \<notin> processed s \<and> r \<notin> failed s \<and> r \<notin> set rest}"
      using new(3) extract_length [where enum = enum and cur = cur and doc = "read_pdf (sleep w) cur"] unfolding refs_def by auto
    with \<open>cur \<notin> processed s \<union> failed s\<close> d True st new(2) show ?thesis by (auto intro: ok)
  qed
qed

lemma frontier_inv_step:
  assumes "processed s \<inter> failed s = {}" "distinct (queue s)"
    "set (queue s) \<inter> (processed s \<union> failed s) = {}"
  shows "processed (crawl_step org enum cp s) \<inter> failed (crawl_step org enum cp s) = {}
    \<and> distinct (queue (crawl_step org enum cp s))
    \<and> set (queue (crawl_step org enum cp s))
        \<inter> (processed (crawl_step org enum cp s) \<union> failed (crawl_step org enum cp s)) = {}"
proof (cases "queue s")
  case Nil
  with assms show ?thesis by (simp add: crawl_step_empty)
next
  case (Cons cur rest)
  then show ?thesis
  proof (cases rule: crawl_step_cases [where org = org and enum = enum and cp = cp])
    case skip
    with assms Cons show ?thesis by auto
  next
    case (fail w)
    with assms Cons show ?thesis by auto
  next
    case (ok w new)
    with assms Cons show ?thesis by auto
  qed
qed

lemma frontier_step_new:
  "\<exists>new. queue (crawl_step org enum cp s) = tl (queue s) @ new \<and> distinct new
     \<and> set new \<inter> (set (tl (queue s)) \<union> processed (crawl_step org enum cp s)
                    \<union> failed (crawl_step org enum cp s)) = {}"
proof (cases "queue s")
  case Nil
  then show ?thesis by (simp add: crawl_step_empty)
next
  case (Cons cur rest)
  then show ?thesis
  proof (cases rule: crawl_step_cases [where org = org and enum = enum and cp = cp])
    case skip
    with Cons show ?thesis by simp
  next
    case (fail w)
    with Cons show ?thesis by simp
  next
    case (ok w new)
    have "queue (crawl_step org enum cp s) = tl (queue s) @ new \<and> distinct new
     \<and> set new \<inter> (set (tl (queue s)) \<union> processed (crawl_step org enum cp s)
                    \<union> failed (crawl_step org enum cp s)) = {}"
      using ok Cons by auto
    then show ?thesis by blast
  qed
qed

lemma store_step:
  "dom (store (env s)) \<subseteq> dom (store (env (crawl_step org enum cp s)))
   \<and> (finite (dom (store (env s))) \<longrightarrow> finite (dom (store (env (crawl_step org enum cp s)))))
   \<and> (processed s \<subseteq> dom (store (env s))
        \<longrightarrow> processed (crawl_step org enum cp s) \<subseteq> dom (store (env (crawl_step org enum cp s))))"
proof (cases "queue s")
  case Nil
  then show ?thesis by (simp add: crawl_step_empty)
next
  case (Cons cur rest)
  then show ?thesis
  proof (cases rule: crawl_step_cases [where org = org and enum = enum and cp = cp])
    case skip
    then show ?thesis by simp
  next
    case (fail w)
    from download_pdf_store [OF fail(2)]
    have d: "dom (store (env s)) \<subseteq> dom (store w)"
      "dom (store w) \<subseteq> insert cur (dom (store (env s)))" by simp_all
    have e: "env (crawl_step org enum cp s) = w" "processed (crawl_step org enum cp s) = processed s"
      using fail(3) by simp_all
    from d(2) have "finite (dom (store (env s))) \<longrightarrow> finite (dom (store w))"
      by (auto intro: finite_subset)
    with d(1) show ?thesis unfolding e by blast
  next
    case (ok w new)
    from download_pdf_store [OF ok(2)]
    have d: "dom (store (env s)) \<subseteq> dom (store w)"
      "dom (store w) \<subseteq> insert cur (dom (store (env s)))" "cur \<in> dom (store w)"
      by simp_all
    have e: "store (env (crawl_step org enum cp s)) = store w"
      "processed (crawl_step org enum cp s) = insert cur (processed s)"
      using ok(3) by (simp_all add: sleep_simps)
    from d(2) have "finite (dom (store (env s))) \<longrightarrow> finite (dom (store w))"
      by (auto intro: finite_subset)
    with d(1,3) show ?thesis unfolding e by blast
  qed
qed

lemma trace_inv_step:
  assumes "trace (env s) = base @ tr" "distinct (fetched_ids tr)"
    "set (fetched_ids tr) = processed s \<union> failed s" "card (failed s) = failed_fetches tr"
  shows "\<exists>tr'. trace (env (crawl_step org enum cp s)) = base @ tr' \<and> distinct (fetched_ids tr')
     \<and> set (fetched_ids tr') = processed (crawl_step org enum cp s) \<union> failed (crawl_step org enum cp s)
     \<and> card (failed (crawl_step org enum cp s)) = failed_fetches tr'"
proof (cases "queue s")
  case Nil
  with assms show ?thesis by (simp add: crawl_step_empty)
next
  case (Cons cur rest)
  have fin: "finite (failed s)"
    using assms(3) finite_set [of "fetched_ids tr"] by (metis finite_Un)
  from Cons show ?thesis
  proof (cases rule: crawl_step_cases [where org = org and enum = enum and cp = cp])
    case skip
    with assms show ?thesis by simp
  next
    case (fail w)
    let ?tr = "tr @ [Fetch cur False]"
    have "trace (env (crawl_step org enum cp s)) = base @ ?tr \<and> distinct (fetched_ids ?tr)
     \<and> set (fetched_ids ?tr) = processed (crawl_step org enum cp s) \<union> failed (crawl_step org enum cp s)
     \<and> card (failed (crawl_step org enum cp s)) = failed_fetches ?tr"
      using fail assms fin download_pdf_trace [OF fail(2)]
      by (auto simp: fetched_ids_append failed_fetches_append)
    then show ?thesis by blast
  next
    case (ok w new)
    let ?tr = "tr @ [Fetch cur True, Delay]"
    have "trace (env (crawl_step org enum cp s)) = base @ ?tr \<and> distinct (fetched_ids ?tr)
     \<and> set (fetched_ids ?tr) = processed (crawl_step org enum cp s) \<union> failed (crawl_step org enum cp s)
     \<and> card (failed (crawl_step org enum cp s)) = failed_fetches ?tr"
      using ok assms fin download_pdf_trace [OF ok(2)]
      by (auto simp: fetched_ids_append failed_fetches_append sleep_simps)
    then show ?thesis by blast
  qed
qed

lemma finite_pending: "finite (pending s)"
  by (simp add: pending_def finite_ref_space)

lemma crawl_step_decreases:
  assumes "queue s \<noteq> []"
  shows "(crawl_step org enum cp s, s) \<in> crawl_order"
proof -
  from assms obtain cur rest where q: "queue s = cur # rest" by (cases "queue s") auto
  then show ?thesis
  proof (cases rule: crawl_step_cases [where org = org and enum = enum and cp = cp])
    case skip
    have "pending (crawl_step org enum cp s) \<subseteq> pending s"
      using skip q by (auto simp: pending_def)
    then have "card (pending (crawl_step org enum cp s)) \<le> card (pending s)"
      by (rule card_mono [OF finite_pending])
    moreover have "length (queue (crawl_step org enum cp s)) < length (queue s)"
      using skip q by simp
    ultimately show ?thesis by (auto simp: crawl_order_def)
  next
    case (fail w)
    have "pending (crawl_step org enum cp s) \<subset> pending s"
      using fail q by (auto simp: pending_def)
    then have "card (pending (crawl_step org enum cp s)) < card (pending s)"
      by (rule psubset_card_mono [OF finite_pending])
    then show ?thesis by (simp add: crawl_order_def)
  next
    case (ok w new)
    have "cur \<in> pending s" "cur \<notin> pending (crawl_step org enum cp s)"
      using ok q by (auto simp: pending_def)
    moreover have "pending (crawl_step org enum cp s) \<subseteq> pending s"
      using ok q by (auto simp: pending_def ref_space_def)
    ultimately have "pending (crawl_step org enum cp s) \<subset> pending s" by blast
    then have "card (pending (crawl_step org enum cp s)) < card (pending s)"
      by (rule psubset_card_mono [OF finite_pending])
    then show ?thesis by (simp add: crawl_order_def)
  qed
qed

lemma wf_crawl_order: "wf crawl_order"
  unfolding crawl_order_def by (intro wf_inv_image wf_lex_prod wf_less_than)

lemma crawl_loop_terminates:
  "\<exists>t n. crawl_loop org enum cp s = Some t \<and> queue t = [] \<and> t = (crawl_step org enum cp ^^ n) s"
proof (induction s rule: wf_induct_rule [OF wf_crawl_order])
  case (1 s)
  show ?case
  proof (cases "queue s = []")
    case True
    then have "crawl_loop org enum cp s = Some s \<and> queue s = [] \<and> s = (crawl_step org enum cp ^^ 0) s"
      by (simp add: crawl_loop.simps)
    then show ?thesis by blast
  next
    case False
    from "1.IH" [OF crawl_step_decreases [OF False]] obtain t n where
      t: "crawl_loop org enum cp (crawl_step org enum cp s) = Some t" "queue t = []"
        "t = (crawl_step org enum cp ^^ n) (crawl_step org enum cp s)"
      by blast
    from False t have "crawl_loop org enum cp s = Some t \<and> queue t = []
        \<and> t = (crawl_step org enum cp ^^ Suc n) s"
      by (simp add: crawl_loop.simps [of org enum cp s] funpow_swap1)
    then show ?thesis by blast
  qed
qed

lemma reach_frontier:
  "processed ((crawl_step org enum cp ^^ n) (crawl_init start w))
     \<inter> failed ((crawl_step org enum cp ^^ n) (crawl_init start w)) = {}
   \<and> distinct (queue ((crawl_step org enum cp ^^ n) (crawl_init start w)))
   \<and> set (queue ((crawl_step org enum cp ^^ n) (crawl_init start w)))
       \<inter> (processed ((crawl_step org enum cp ^^ n) (crawl_init start w))
          \<union> failed ((crawl_step org enum cp ^^ n) (crawl_init start w))) = {}"
proof (induction n)
  case 0
  show ?case by (simp add: crawl_init_def)
next
  case (Suc n)
  then show ?case using frontier_inv_step [of "(crawl_step org enum cp ^^ n) (crawl_init start w)"]
    by simp
qed

lemma reach_store:
  "dom (store w) \<subseteq> dom (store (env ((crawl_step org enum cp ^^ n) (crawl_init start w))))
   \<and> (finite (dom (store w))
       \<longrightarrow> finite (dom (store (env ((crawl_step org enum cp ^^ n) (crawl_init start w))))))
   \<and> processed ((crawl_step org enum cp ^^ n) (crawl_init start w))
       \<subseteq> dom (store (env ((crawl_step org enum cp ^^ n) (crawl_init start w))))"
proof (induction n)
  case 0
  show ?case by (simp add: crawl_init_def)
next
  case (Suc n)
  then show ?case using store_step [of "(crawl_step org enum cp ^^ n) (crawl_init start w)" org enum cp]
    by (simp del: dom_eq_empty_conv) blast
qed

lemma reach_trace:
  "\<exists>tr. trace (env ((crawl_step org enum cp ^^ n) (crawl_init start w))) = trace w @ tr
     \<and> distinct (fetched_ids tr)
     \<and> set (fetched_ids tr) = processed ((crawl_step org enum cp ^^ n) (crawl_init start w))
          \<union> failed ((crawl_step org enum cp ^^ n) (crawl_init start w))
     \<and> card (failed ((crawl_step org enum cp ^^ n) (crawl_init start w))) = failed_fetches tr"
proof (induction n)
  case 0
  show ?case by (simp add: crawl_init_def)
next
  case (Suc n)
  then obtain tr where
    "trace (env ((crawl_step org enum cp ^^ n) (crawl_init start w))) = trace w @ tr"
    "distinct (fetched_ids tr)"
    "set (fetched_ids tr) = processed ((crawl_step org enum cp ^^ n) (crawl_init start w))
          \<union> failed ((crawl_step org enum cp ^^ n) (crawl_init start w))"
    "card (failed ((crawl_step org enum cp ^^ n) (crawl_init start w))) = failed_fetches tr"
    by blast
  from trace_inv_step [OF this, of org enum cp] show ?case by simp
qed

lemma new_events_append: "trace w' = trace w @ tr \<Longrightarrow> new_events w w' = tr"
  by (simp add: new_events_def)

text \<open>
  Claim C4. After any number of iterations of the traversal loop, started from the initial
  state, no ID is both processed and failed, the queue holds no ID twice, and no queued ID is
  processed or failed. The next iteration takes the head off the queue and appends IDs that
  are distinct, not in the rest of the queue, not processed and not failed.
\<close>

theorem frontier_invariant:
  fixes org :: origin and enum :: set_order and cp :: string and n :: nat
    and starting_map :: string and w :: world
  defines "s \<equiv> (crawl_step org enum cp ^^ n) (crawl_init starting_map w)"
  shows "processed s \<inter> failed s = {}
    \<and> distinct (queue s)
    \<and> set (queue s) \<inter> (processed s \<union> failed s) = {}
    \<and> (\<exists>new. queue (crawl_step org enum cp s) = tl (queue s) @ new \<and> distinct new
          \<and> set new \<inter> (set (tl (queue s)) \<union> processed (crawl_step org enum cp s)
                         \<union> failed (crawl_step org enum cp s)) = {})"
  unfolding s_def using reach_frontier [where org = org and enum = enum and cp = cp and n = n and start = starting_map and w = w] frontier_step_new by blast

text \<open>
  Claim C9. For every starting ID, origin and store, the traversal loop ends with an empty
  queue, and \<^verbatim>\<open>crawl_plat_maps\<close> returns the sizes of the processed and the failed set, both
  finite. The IDs fetched during the run are pairwise distinct, and they are the processed
  and failed IDs.
\<close>

theorem crawl_terminates:
  "\<exists>t. crawl_loop org enum (community_of starting_map) (crawl_init starting_map w) = Some t
     \<and> queue t = []
     \<and> crawl_plat_maps org enum starting_map w = Some ((card (processed t), card (failed t)), env t)
     \<and> finite (processed t \<union> failed t)
     \<and> distinct (fetched_ids (new_events w (env t)))
     \<and> set (fetched_ids (new_events w (env t))) = processed t \<union> failed t"
proof -
  from crawl_loop_terminates [where org = org and enum = enum and cp = "community_of starting_map" and s = "crawl_init starting_map w"]
  obtain t n where t: "crawl_loop org enum (community_of starting_map) (crawl_init starting_map w)
      = Some t" "queue t = []"
    "t = (crawl_step org enum (community_of starting_map) ^^ n) (crawl_init starting_map w)"
    by blast
  from reach_trace [where org = org and enum = enum and cp = "community_of starting_map" and n = n and start = starting_map and w = w] t(3)
  obtain tr where tr: "trace (env t) = trace w @ tr" "distinct (fetched_ids tr)"
    "set (fetched_ids tr) = processed t \<union> failed t"
    by blast
  have fin: "finite (processed t \<union> failed t)" using tr(3) finite_set [of "fetched_ids tr"] by simp
  have "crawl_plat_maps org enum starting_map w = Some ((card (processed t), card (failed t)), env t)"
    by (simp add: crawl_plat_maps_def t(1))
  with t(1,2) fin tr(2,3) new_events_append [OF tr(1)] show ?thesis by auto
qed

text \<open>
  Claim C10. After any number of iterations of the traversal loop every processed ID has its
  file in the store, so with a finite store the number of processed IDs is at most the number
  of stored files. A successful \<^verbatim>\<open>download_pdf\<close> leaves the file in the store.
\<close>

theorem processed_in_store:
  fixes org :: origin and enum :: set_order and cp :: string and n :: nat
    and starting_map :: string and w :: world
  defines "s \<equiv> (crawl_step org enum cp ^^ n) (crawl_init starting_map w)"
  shows "processed s \<subseteq> dom (store (env s))
    \<and> (finite (dom (store w)) \<longrightarrow> card (processed s) \<le> card (dom (store (env s))))
    \<and> (fst (download_pdf org map_id w')
         \<longrightarrow> file_exists (snd (download_pdf org map_id w')) map_id)"
proof -
  have a: "processed s \<subseteq> dom (store (env s))"
    and b: "finite (dom (store w)) \<longrightarrow> finite (dom (store (env s)))"
    unfolding s_def using reach_store [where org = org and enum = enum and cp = cp and n = n and start = starting_map and w = w] by blast+
  from a b have "finite (dom (store w)) \<longrightarrow> card (processed s) \<le> card (dom (store (env s)))"
    by (auto intro: card_mono)
  moreover have "fst (download_pdf org map_id w')
         \<longrightarrow> file_exists (snd (download_pdf org map_id w')) map_id"
    using download_pdf_store [of org map_id w']
    by (cases "download_pdf org map_id w'") (auto simp: file_exists_def)
  ultimately show ?thesis using a by blast
qed

theorem processed_in_store_witness:
  "finite (dom (store empty_world))
   \<and> fst (download_pdf first_only_origin ''001-01'' empty_world)
   \<and> processed ((crawl_step first_only_origin ascending ''001'' ^^ Suc 0)
                   (crawl_init ''001-01'' empty_world)) = {''001-01''}
   \<and> card (processed ((crawl_step first_only_origin ascending ''001'' ^^ Suc 0)
                         (crawl_init ''001-01'' empty_world)))
       \<le> card (dom (store (env ((crawl_step first_only_origin ascending ''001'' ^^ Suc 0)
                                   (crawl_init ''001-01'' empty_world)))))
   \<and> file_exists (snd (download_pdf first_only_origin ''001-01'' empty_world)) ''001-01''"
proof -
  have h1: "finite (dom (store empty_world))"
    by (simp add: empty_world_def)
  have h2: "fst (download_pdf first_only_origin ''001-01'' empty_world)"
    by code_simp
  have p: "processed ((crawl_step first_only_origin ascending ''001'' ^^ Suc 0)
                   (crawl_init ''001-01'' empty_world)) = {''001-01''}"
    by code_simp
  from processed_in_store [where org = first_only_origin and enum = ascending and cp = "''001''" and n = "Suc 0"
      and starting_map = "''001-01''" and w = empty_world and map_id = "''001-01''"
      and w' = empty_world] h1 h2 p
  show ?thesis by blast
qed

text \<open>
  Claim C7 on the code: the start map is fetched and followed by a delay; the fetch of
  \<^verbatim>\<open>001-02\<close> fails, and the fetch of \<^verbatim>\<open>001-11\<close> follows it with no delay in between. The
  traversal loop leaves the iteration of a failed fetch before it reaches the delay.
\<close>

theorem crawl_no_delay_after_failed_fetch:
  "map_option (trace \<circ> snd) (crawl_plat_maps first_only_origin ascending ''001-01'' empty_world)
     = Some [Fetch ''001-01'' True, Delay, Fetch ''001-02'' False, Fetch ''001-11'' False]"
  by code_simp

section \<open>Properties of the systematic prober\<close>

lemma log_event_simps:
  "store (log_event e w) = store w" "requests (log_event e w) = requests w"
  "trace (log_event e w) = trace w @ [e]"
  by (simp_all add: log_event_def)

lemma download_pdf_requests:
  "\<not> file_exists w map_id \<Longrightarrow> download_pdf org map_id w = (ok, w')
     \<Longrightarrow> requests w' = requests w + 1"
  by (auto simp: download_pdf_def log_event_def split: option.splits)

lemma download_pdf_absent_ok:
  "\<not> file_exists w map_id \<Longrightarrow> download_pdf org map_id w = (True, w')
     \<Longrightarrow> \<exists>content. org (requests w) map_id = Some content
           \<and> store w' = (store w)(map_id \<mapsto> content)"
  by (auto simp: download_pdf_def log_event_def split: option.splits)

lemma download_pdf_absent_fail:
  "\<not> file_exists w map_id \<Longrightarrow> download_pdf org map_id w = (False, w')
     \<Longrightarrow> org (requests w) map_id = None \<and> store w' = store w"
  by (auto simp: download_pdf_def log_event_def split: option.splits)

lemma systematic_loop_run:
  assumes "consecutive_failures st < max_consecutive_failures"
  shows "\<exists>j tr. trace (penv (systematic_loop org cp max_attempts i st)) = trace (penv st) @ tr
     \<and> i - 1 \<le> j \<and> j \<le> max (i - 1) max_attempts
     \<and> probed_ids tr = map (\<lambda>k. cp @ ''-'' @ fmt02 k) [i..j]
     \<and> (j = max (i - 1) max_attempts
         \<or> streak (consecutive_failures st) tr = max_consecutive_failures)
     \<and> consecutive_failures (systematic_loop org cp max_attempts i st)
         = streak (consecutive_failures st) tr
     \<and> below_cutoff (consecutive_failures st) tr
     \<and> discovered (systematic_loop org cp max_attempts i st)
         = discovered st \<union> set (found_ids tr)
     \<and> int (length (fetched_ids tr)) \<le> j - (i - 1)
     \<and> requests (penv (systematic_loop org cp max_attempts i st))
         = requests (penv st) + length (fetched_ids tr)
     \<and> sweep_consistent org (store (penv st)) (requests (penv st)) tr
     \<and> store (penv (systematic_loop org cp max_attempts i st))
         = files_after org (store (penv st)) (requests (penv st)) tr"
  using assms
proof (induction org cp max_attempts i st rule: systematic_loop.induct)
  case (1 org cp max_attempts i st)
  let ?id = "cp @ ''-'' @ fmt02 i"
  let ?c = "consecutive_failures st"
  let ?L = "systematic_loop org cp max_attempts"
  let ?Q = "\<lambda>st0 i0 st' j tr. trace (penv st') = trace (penv st0) @ tr
     \<and> i0 - 1 \<le> j \<and> j \<le> max (i0 - 1) max_attempts
     \<and> probed_ids tr = map (\<lambda>k. cp @ ''-'' @ fmt02 k) [i0..j]
     \<and> (j = max (i0 - 1) max_attempts
         \<or> streak (consecutive_failures st0) tr = max_consecutive_failures)
     \<and> consecutive_failures st' = streak (consecutive_failures st0) tr
     \<and> below_cutoff (consecutive_failures st0) tr
     \<and> discovered st' = discovered st0 \<union> set (found_ids tr)
     \<and> int (length (fetched_ids tr)) \<le> j - (i0 - 1)
     \<and> requests (penv st') = requests (penv st0) + length (fetched_ids tr)
     \<and> sweep_consistent org (store (penv st0)) (requests (penv st0)) tr
     \<and> store (penv st') = files_after org (store (penv st0)) (requests (penv st0)) tr"
  show ?case
  proof (cases "max_attempts < i")
    case True
    then have "?L i st = st" by (simp add: systematic_loop.simps [of _ _ _ i st] Let_def)
    with True "1.prems" have "?Q st i (?L i st) (i - 1) []" by simp
    then show ?thesis by blast
  next
    case in_range: False
    show ?thesis
    proof (cases "file_exists (penv st) ?id")
      case True
      let ?st1 = "st\<lparr>discovered := insert ?id (discovered st), consecutive_failures := 0,
                    penv := log_event (Skipped ?id) (penv st)\<rparr>"
      have eq: "?L i st = ?L (i + 1) ?st1"
        using in_range True by (simp add: systematic_loop.simps [of _ _ _ i st] Let_def)
      have pre: "consecutive_failures ?st1 < max_consecutive_failures"
        by (simp add: max_consecutive_failures_def)
      from "1.IH"(1) [OF in_range refl True pre] obtain j tr where
        q: "?Q ?st1 (i + 1) (?L (i + 1) ?st1) j tr" by blast
      from q have ij: "i \<le> j" by simp
      have "?Q st i (?L i st) j (Skipped ?id # tr)"
        unfolding eq using q in_range "1.prems"(1) ij True
        by (simp add: log_event_simps upto_rec1 [OF ij] max_def file_exists_def)
      then show ?thesis by blast
    next
      case absent: False
      obtain success w where d: "download_pdf org ?id (penv st) = (success, w)"
        by (cases "download_pdf org ?id (penv st)")
      note tr_w = download_pdf_trace [OF d]
      note rq_w = download_pdf_requests [OF absent d]
      show ?thesis
      proof (cases success)
        case True
        let ?st1 = "st\<lparr>discovered := insert ?id (discovered st), consecutive_failures := 0,
                      penv := sleep w\<rparr>"
        have eq: "?L i st = ?L (i + 1) ?st1"
          using in_range absent d True by (simp add: systematic_loop.simps [of _ _ _ i st] Let_def)
        have pre: "consecutive_failures ?st1 < max_consecutive_failures"
          by (simp add: max_consecutive_failures_def)
        from "1.IH"(2) [OF in_range refl absent d [symmetric] True pre] obtain j tr where
          q: "?Q ?st1 (i + 1) (?L (i + 1) ?st1) j tr" by blast
        from q have ij: "i \<le> j" by simp
        from d True have d_ok: "download_pdf org ?id (penv st) = (True, w)" by simp
        from download_pdf_absent_ok [OF absent d_ok] obtain content where
          ans: "org (requests (penv st)) ?id = Some content"
          "store w = (store (penv st))(?id \<mapsto> content)"
          by blast
        from absent have none: "store (penv st) ?id = None" by (simp add: file_exists_def)
        have "?Q st i (?L i st) j (Fetch ?id True # Delay # tr)"
          unfolding eq using q in_range "1.prems"(1) ij True tr_w rq_w ans none
          by (simp add: sleep_simps upto_rec1 [OF ij] max_def)
        then show ?thesis by blast
      next
        case False
        from d False have d_fail: "download_pdf org ?id (penv st) = (False, w)" by simp
        from download_pdf_absent_fail [OF absent d_fail]
        have ans: "org (requests (penv st)) ?id = None" "store w = store (penv st)"
          by simp_all
        from absent have none: "store (penv st) ?id = None" by (simp add: file_exists_def)
        show ?thesis
        proof (cases "max_consecutive_failures \<le> ?c + 1")
          case True
          have eq: "?L i st = st\<lparr>consecutive_failures := ?c + 1, penv := w\<rparr>"
            using in_range absent d False True
            by (simp add: systematic_loop.simps [of _ _ _ i st] Let_def)
          have "?Q st i (?L i st) i [Fetch ?id False]"
            unfolding eq using in_range "1.prems"(1) True False tr_w rq_w ans none
            by (simp add: max_def)
          then show ?thesis by blast
        next
          case go_on: False
          let ?st1 = "st\<lparr>consecutive_failures := ?c + 1, penv := sleep w\<rparr>"
          have eq: "?L i st = ?L (i + 1) ?st1"
            using in_range absent d False go_on
            by (simp add: systematic_loop.simps [of _ _ _ i st] Let_def)
          have pre: "consecutive_failures ?st1 < max_consecutive_failures"
            using go_on by simp
          from "1.IH"(3) [OF in_range refl absent d [symmetric] False go_on pre] obtain j tr where
            q: "?Q ?st1 (i + 1) (?L (i + 1) ?st1) j tr" by blast
          from q have ij: "i \<le> j" by simp
          have "?Q st i (?L i st) j (Fetch ?id False # Delay # tr)"
            unfolding eq using q in_range "1.prems"(1) ij False tr_w rq_w go_on ans none
            by (simp add: sleep_simps upto_rec1 [OF ij] max_def)
          then show ?thesis by blast
        qed
      qed
    qed
  qed
qed


lemma systematic_discovery_trace:
  "\<exists>tr. trace (penv (systematic_discovery org cp max_attempts w)) = trace w @ tr"
  using systematic_loop_run [where st = "\<lparr>discovered = {}, consecutive_failures = 0, penv = w\<rparr>"
      and org = org and cp = cp and max_attempts = max_attempts and i = 1]
  by (auto simp: systematic_discovery_def max_consecutive_failures_def)

text \<open>A sweep over three IDs: the first is fetched, the second is in the store, the third fails.\<close>

lemma prober_example:
  "trace (penv (systematic_discovery probe_origin ''002'' 3 one_file_world))
     = [Fetch ''002-01'' True, Delay, Skipped ''002-02'', Fetch ''002-03'' False, Delay]
   \<and> discovered (systematic_discovery probe_origin ''002'' 3 one_file_world)
     = {''002-01'', ''002-02''}
   \<and> consecutive_failures (systematic_discovery probe_origin ''002'' 3 one_file_world) = 1"
  by code_simp

text \<open>
  Claim C5. The events of a sweep, read from the trace: the IDs looked at are those of the
  sequence numbers 1 to \<open>j\<close>, in ascending order, for some \<open>j\<close> up to the bound; the sweep
  ends at the bound or with the counter at the cutoff of 10; at most \<open>j\<close> fetches are made.
  The counter is zero after a skipped ID or a successful fetch and one more after a failed
  fetch, and no event follows once it has reached the cutoff. The discovered set holds the
  skipped IDs and the IDs fetched with success. An ID is skipped when its file is in the
  store at the moment the sweep comes to it, and then no request is sent; otherwise it is
  fetched, the fetch is the next request to the origin, and it succeeds, leaving the file in
  the store, exactly when the origin answers with a document.
\<close>

theorem prober_sweep:
  fixes org :: origin and cp :: string and max_attempts :: int and w :: world
  defines "st \<equiv> systematic_discovery org cp max_attempts w"
  defines "tr \<equiv> new_events w (penv st)"
  shows "\<exists>j. 0 \<le> j \<and> j \<le> max 0 max_attempts
     \<and> probed_ids tr = map (\<lambda>k. cp @ ''-'' @ fmt02 k) [1..j]
     \<and> (j = max 0 max_attempts \<or> streak 0 tr = max_consecutive_failures)
     \<and> int (length (fetched_ids tr)) \<le> j
     \<and> consecutive_failures st = streak 0 tr
     \<and> below_cutoff 0 tr
     \<and> discovered st = set (found_ids tr)
     \<and> requests (penv st) = requests w + length (fetched_ids tr)
     \<and> sweep_consistent org (store w) (requests w) tr
     \<and> store (penv st) = files_after org (store w) (requests w) tr"
proof -
  let ?st0 = "\<lparr>discovered = {}, consecutive_failures = 0, penv = w\<rparr>"
  have "consecutive_failures ?st0 < max_consecutive_failures"
    by (simp add: max_consecutive_failures_def)
  from systematic_loop_run [OF this, of org cp max_attempts 1]
  obtain j tr' where r: "trace (penv st) = trace w @ tr'" "0 \<le> j" "j \<le> max 0 max_attempts"
    "probed_ids tr' = map (\<lambda>k. cp @ ''-'' @ fmt02 k) [1..j]"
    "j = max 0 max_attempts \<or> streak 0 tr' = max_consecutive_failures"
    "consecutive_failures st = streak 0 tr'" "below_cutoff 0 tr'"
    "discovered st = set (found_ids tr')" "int (length (fetched_ids tr')) \<le> j"
    "requests (penv st) = requests w + length (fetched_ids tr')"
    "sweep_consistent org (store w) (requests w) tr'"
    "store (penv st) = files_after org (store w) (requests w) tr'"
    unfolding st_def systematic_discovery_def by auto
  from r(1) have "tr = tr'" by (simp add: tr_def new_events_def)
  with r show ?thesis by blast
qed

section \<open>Properties of the hybrid orchestrator\<close>

lemma crawl_plat_maps_result:
  "\<exists>p f w1 tr. crawl_plat_maps org enum starting_map w = Some ((p, f), w1)
     \<and> trace w1 = trace w @ tr \<and> f = failed_fetches tr"
proof -
  from crawl_loop_terminates [where org = org and enum = enum and cp = "community_of starting_map"
      and s = "crawl_init starting_map w"]
  obtain t n where t: "crawl_loop org enum (community_of starting_map) (crawl_init starting_map w)
      = Some t"
    "t = (crawl_step org enum (community_of starting_map) ^^ n) (crawl_init starting_map w)"
    by blast
  from reach_trace [where org = org and enum = enum and cp = "community_of starting_map" and n = n
      and start = starting_map and w = w] t(2)
  obtain tr where tr: "trace (env t) = trace w @ tr" "card (failed t) = failed_fetches tr"
    by blast
  have "crawl_plat_maps org enum starting_map w = Some ((card (processed t), card (failed t)), env t)"
    by (simp add: crawl_plat_maps_def t(1))
  with tr show ?thesis by blast
qed

lemma download_additional_run:
  "download_additional org refs (ap, af, w) = (ap', af', w')
     \<Longrightarrow> \<exists>tr. trace w' = trace w @ tr \<and> af' = af + failed_fetches tr"
proof (induction refs arbitrary: ap af w)
  case Nil
  then show ?case by simp
next
  case (Cons ref refs)
  obtain success w1 where d: "download_pdf org ref w = (success, w1)"
    by (cases "download_pdf org ref w")
  note t1 = download_pdf_trace [OF d]
  show ?case
  proof (cases success)
    case True
    with Cons.prems d have "download_additional org refs (ap + 1, af, sleep w1) = (ap', af', w')"
      by simp
    from Cons.IH [OF this] obtain tr where
      "trace w' = trace (sleep w1) @ tr" "af' = af + failed_fetches tr" by blast
    with t1 True have "trace w' = trace w @ (Fetch ref True # Delay # tr)
        \<and> af' = af + failed_fetches (Fetch ref True # Delay # tr)"
      by (simp add: sleep_simps)
    then show ?thesis by blast
  next
    case False
    with Cons.prems d have "download_additional org refs (ap, af + 1, sleep w1) = (ap', af', w')"
      by simp
    from Cons.IH [OF this] obtain tr where
      "trace w' = trace (sleep w1) @ tr" "af' = af + 1 + failed_fetches tr" by blast
    with t1 False have "trace w' = trace w @ (Fetch ref False # Delay # tr)
        \<and> af' = af + failed_fetches (Fetch ref False # Delay # tr)"
      by (simp add: sleep_simps)
    then show ?thesis by blast
  qed
qed

text \<open>
  Claim C6, as the code has it. A hybrid run always returns. Its processed total is the
  processed count of the traversal plus the size of the discovered set plus the successes of
  the last phase. Its failure total is the failed count of the traversal plus the failures
  of the last phase: these are the failed fetches of those two phases, and the failed
  fetches of the probing phase are not in the total.
\<close>

theorem hybrid_totals:
  "\<exists>r. hybrid_phases org enum iter starting_map w = Some r
     \<and> hybrid_crawl_community org enum iter starting_map w
         = Some (processed_pdf r + card (discovered_systematic r) + additional_processed r,
                 failed_pdf r + additional_failed r)
     \<and> failed_pdf r = failed_fetches (new_events w (after_crawl r))
     \<and> additional_failed r
         = failed_fetches (new_events (after_discovery r) (after_additional r))
     \<and> failed_fetches (new_events w (after_additional r))
         = failed_pdf r + probe_failures r + additional_failed r"
proof -
  from crawl_plat_maps_result [of org enum starting_map w] obtain p f w1 tr1 where
    c: "crawl_plat_maps org enum starting_map w = Some ((p, f), w1)"
    and t1: "trace w1 = trace w @ tr1" and f: "f = failed_fetches tr1"
    by blast
  define st where "st = systematic_discovery org (community_of starting_map) 100 w1"
  from systematic_discovery_trace [of org "community_of starting_map" 100 w1]
  obtain tr2 where t2: "trace (penv st) = trace w1 @ tr2" unfolding st_def by blast
  define newly where
    "newly = collect_new enum (community_of starting_map) (penv st) (iter (discovered st)) []"
  obtain ap af w3 where d: "download_additional org newly (0, 0, penv st) = (ap, af, w3)"
    by (cases "download_additional org newly (0, 0, penv st)")
  from download_additional_run [OF d] obtain tr3 where
    t3: "trace w3 = trace (penv st) @ tr3" and af: "af = failed_fetches tr3"
    by auto
  define r where "r = \<lparr>processed_pdf = p, failed_pdf = f, after_crawl = w1,
      discovered_systematic = discovered st, after_discovery = penv st,
      additional_processed = ap, additional_failed = af, after_additional = w3\<rparr>"
  have hp: "hybrid_phases org enum iter starting_map w = Some r"
    using c d by (simp add: hybrid_phases_def Let_def st_def newly_def r_def)
  have hc: "hybrid_crawl_community org enum iter starting_map w
         = Some (processed_pdf r + card (discovered_systematic r) + additional_processed r,
                 failed_pdf r + additional_failed r)"
    by (simp add: hybrid_crawl_community_def hp)
  have e1: "new_events w (after_crawl r) = tr1"
    and e2: "new_events (after_crawl r) (after_discovery r) = tr2"
    and e3: "new_events (after_discovery r) (after_additional r) = tr3"
    and e4: "new_events w (after_additional r) = tr1 @ tr2 @ tr3"
    using t1 t2 t3 by (simp_all add: r_def new_events_def)
  have "failed_pdf r = failed_fetches (new_events w (after_crawl r))"
    unfolding e1 by (simp add: r_def f)
  moreover have "additional_failed r
         = failed_fetches (new_events (after_discovery r) (after_additional r))"
    unfolding e3 by (simp add: r_def af)
  moreover have "failed_fetches (new_events w (after_additional r))
         = failed_pdf r + probe_failures r + additional_failed r"
    unfolding e4 probe_failures_def e2 by (simp add: r_def f af failed_fetches_append)
  ultimately show ?thesis using hp hc by blast
qed

text \<open>
  Claim C6 as stated fails: on an origin that answers no request, the traversal fails once
  and the prober ten times, and the failure total returned is 1.
\<close>

theorem hybrid_probe_failures_counterexample:
  "hybrid_crawl_community dead_origin ascending sorted_list_of_set ''001-01'' empty_world = Some (0, 1)
   \<and> map_option failed_pdf (hybrid_phases dead_origin ascending sorted_list_of_set ''001-01'' empty_world)
       = Some 1
   \<and> map_option probe_failures
        (hybrid_phases dead_origin ascending sorted_list_of_set ''001-01'' empty_world) = Some 10
   \<and> map_option additional_failed
        (hybrid_phases dead_origin ascending sorted_list_of_set ''001-01'' empty_world) = Some 0"
  by code_simp

end
